theory Spec2Isabelle
  imports Main "HOL-Library.Word" "HOL-Library.Sublist"
begin

section \<open>Byte strings, constants and errors\<close>

text \<open>
  Go strings and byte slices are sequences of bytes; both are modelled by \<open>string\<close>
  (a list of 8-bit characters). The counters of \<open>progressWriter\<close> are \<open>int64\<close>, modelled
  by 64-bit words read through \<open>sint\<close>, so that \<open>+\<close> and \<open>-\<close> wrap around as in Go.
\<close>

type_synonym int64 = "64 word"

definition ColorRed :: string where
  "ColorRed = [CHR 0x1B] @ ''[31m''"

definition ColorGreen :: string where
  "ColorGreen = [CHR 0x1B] @ ''[32m''"

definition ColorYellow :: string where
  "ColorYellow = [CHR 0x1B] @ ''[33m''"

definition ColorReset :: string where
  "ColorReset = [CHR 0x1B] @ ''[0m''"

text \<open>
  The error values that reach \<open>flashDevice\<close>: the sentinels of package \<open>io\<close>, any other
  cause raised by a stream (\<open>Cause\<close>), and the wrapper built by
  \<open>fmt.Errorf("...: %w", err)\<close> (\<open>Wrapped\<close>, holding the message prefix and the cause).
\<close>

datatype error = EOF | ErrShortWrite | ErrInvalidWrite | Cause string | Wrapped string error

section \<open>Formatting of the progress figure\<close>

text \<open>
  \<open>float64(pw.total)/(1024*1024*1024)\<close> printed with \<open>%.2f\<close>. The conversion of an
  \<open>int64\<close> to \<open>float64\<close> rounds to 53 significant bits (nearest, ties to even) and yields
  an integer; the division by \<open>2^30\<close> is exact; \<open>%.2f\<close> rounds the exact value to two
  decimals (nearest, ties to even) and prints the sign of a negative value.
\<close>

definition roundHalfEven :: "nat \<Rightarrow> nat \<Rightarrow> nat" where
  "roundHalfEven a b =
     (let q = a div b; r = a mod b
      in if 2 * r < b then q else if b < 2 * r then q + 1 else if even q then q else q + 1)"

fun bitLen :: "nat \<Rightarrow> nat" where
  "bitLen n = (if n = 0 then 0 else Suc (bitLen (n div 2)))"

definition float64 :: "int \<Rightarrow> int" where
  "float64 t =
     (let a = nat \<bar>t\<bar>; e = bitLen a - 53
      in if a < 2 ^ 53 then t else sgn t * int (roundHalfEven a (2 ^ e) * 2 ^ e))"

definition digit :: "nat \<Rightarrow> char" where
  "digit d = ''0123456789'' ! (d mod 10)"

fun decimal :: "nat \<Rightarrow> string" where
  "decimal n = (if n < 10 then [digit n] else decimal (n div 10) @ [digit (n mod 10)])"

definition fmtGB :: "int \<Rightarrow> string" where
  "fmtGB t =
     (let m = float64 t; h = roundHalfEven (nat \<bar>m\<bar> * 100) (1024 * 1024 * 1024)
      in (if m < 0 then ''-'' else []) @ decimal (h div 100) @ ''.'' @
         [digit (h mod 100 div 10), digit (h mod 10)])"

section \<open>The progress observer\<close>

record progressWriter =
  total_pw :: int64
  lastShown_pw :: int64

definition progressLine :: "int64 \<Rightarrow> string" where
  "progressLine t =
     [CHR 0x0D] @ ColorYellow @ ''Writing... '' @ fmtGB (sint t) @ '' GB copied'' @ ColorReset"

text \<open>
  \<open>Write\<close> of \<open>progressWriter\<close>. The stream \<open>pw.out\<close> is the message stream of
  \<open>flashDevice\<close>; it is passed in and returned as the bytes sent to it so far (the result of
  \<open>fmt.Fprintf\<close> is discarded by the code). The result is \<open>(n, err)\<close>.
\<close>

definition progressWriter_Write ::
    "progressWriter \<Rightarrow> string \<Rightarrow> string \<Rightarrow> (nat \<times> error option) \<times> progressWriter \<times> string" where
  "progressWriter_Write pw out p =
     (let n = length p;
          pw1 = pw\<lparr>total_pw := total_pw pw + of_nat n\<rparr>
      in if 2 * 1024 * 1024 < sint (total_pw pw1 - lastShown_pw pw1)
         then ((n, None), pw1\<lparr>lastShown_pw := total_pw pw1\<rparr>, out @ progressLine (total_pw pw1))
         else ((n, None), pw1, out))"

text \<open>A sequence of \<open>Write\<close> observations on one observer, in order.\<close>

fun writes :: "progressWriter \<Rightarrow> string \<Rightarrow> string list \<Rightarrow> progressWriter \<times> string" where
  "writes pw out [] = (pw, out)"
| "writes pw out (p # ps) =
     (case progressWriter_Write pw out p of (r, pw1, out1) \<Rightarrow> writes pw1 out1 ps)"

definition newProgressWriter :: progressWriter where
  "newProgressWriter = \<lparr>total_pw = 0, lastShown_pw = 0\<rparr>"

section \<open>Reading and normalising the confirmation answer\<close>

text \<open>
  \<open>bufio.Reader.ReadString(delim)\<close> returns the bytes up to and including the first
  delimiter, or everything read when the stream ends (or fails) before one is seen; the
  error is discarded by \<open>flashDevice\<close>. The confirmation stream is therefore modelled
  by the bytes it delivers before end-of-input.
\<close>

definition ReadString :: "string \<Rightarrow> char \<Rightarrow> string" where
  "ReadString input delim =
     (case dropWhile (\<lambda>c. c \<noteq> delim) input of
        [] \<Rightarrow> input
      | d # rest \<Rightarrow> takeWhile (\<lambda>c. c \<noteq> delim) input @ [d])"

text \<open>
  \<open>strings.TrimSpace\<close> removes leading and trailing Unicode white space. A rune with
  \<open>unicode.IsSpace\<close> is one of \<open>\t \n \v \f \r\<close>, space, U+0085, U+00A0, U+1680,
  U+2000 to U+200A, U+2028, U+2029, U+202F, U+205F, U+3000; \<open>spaceRunes\<close> lists their
  UTF-8 encodings. A byte sequence that is not one of these encodings never decodes to a
  white-space rune, so trimming removes these encodings from the left, then from the right.
\<close>

definition spaceRunes :: "string list" where
  "spaceRunes =
     [[CHR 0x09], [CHR 0x0A], [CHR 0x0B], [CHR 0x0C], [CHR 0x0D], [CHR 0x20],
      [CHR 0xC2, CHR 0x85], [CHR 0xC2, CHR 0xA0], [CHR 0xE1, CHR 0x9A, CHR 0x80],
      [CHR 0xE2, CHR 0x80, CHR 0x80], [CHR 0xE2, CHR 0x80, CHR 0x81],
      [CHR 0xE2, CHR 0x80, CHR 0x82], [CHR 0xE2, CHR 0x80, CHR 0x83],
      [CHR 0xE2, CHR 0x80, CHR 0x84], [CHR 0xE2, CHR 0x80, CHR 0x85],
      [CHR 0xE2, CHR 0x80, CHR 0x86], [CHR 0xE2, CHR 0x80, CHR 0x87],
      [CHR 0xE2, CHR 0x80, CHR 0x88], [CHR 0xE2, CHR 0x80, CHR 0x89],
      [CHR 0xE2, CHR 0x80, CHR 0x8A], [CHR 0xE2, CHR 0x80, CHR 0xA8],
      [CHR 0xE2, CHR 0x80, CHR 0xA9], [CHR 0xE2, CHR 0x80, CHR 0xAF],
      [CHR 0xE2, CHR 0x81, CHR 0x9F], [CHR 0xE3, CHR 0x80, CHR 0x80]]"

definition leadingSpace :: "string \<Rightarrow> nat" where
  "leadingSpace s = (case filter (\<lambda>e. prefix e s) spaceRunes of [] \<Rightarrow> 0 | e # es \<Rightarrow> length e)"

definition trailingSpace :: "string \<Rightarrow> nat" where
  "trailingSpace s = (case filter (\<lambda>e. suffix e s) spaceRunes of [] \<Rightarrow> 0 | e # es \<Rightarrow> length e)"

lemma leadingSpace_Nil: "leadingSpace [] = 0"
  by (simp add: leadingSpace_def spaceRunes_def)

lemma trailingSpace_Nil: "trailingSpace [] = 0"
  by (simp add: trailingSpace_def spaceRunes_def)

function TrimLeft :: "string \<Rightarrow> string" where
  "TrimLeft s = (if leadingSpace s = 0 then s else TrimLeft (drop (leadingSpace s) s))"
  by pat_completeness auto
termination
  by (relation "measure length") (auto simp: leadingSpace_Nil intro: Nat.diff_less)

function TrimRight :: "string \<Rightarrow> string" where
  "TrimRight s =
     (if trailingSpace s = 0 then s else TrimRight (take (length s - trailingSpace s) s))"
  by pat_completeness auto
termination
  by (relation "measure length") (auto simp: trailingSpace_Nil intro: Nat.diff_less)

definition TrimSpace :: "string \<Rightarrow> string" where
  "TrimSpace s = TrimRight (TrimLeft s)"

section \<open>Streams\<close>

text \<open>
  A source stream is given by the results of its successive \<open>Read\<close> calls: each entry
  is the data delivered together with the error reported with it (\<open>None\<close> for \<open>nil\<close>).
  A read never delivers more than the buffer holds: an entry longer than the buffer is
  delivered over several calls. Once the entries are used up the stream reports
  \<open>io.EOF\<close>. The sources described are those that end, with \<open>io.EOF\<close> or an error,
  after finitely many reads; on them the copy loop terminates.
\<close>

type_synonym reader = "(string \<times> error option) list"

fun reader_Read :: "reader \<Rightarrow> nat \<Rightarrow> (string \<times> error option) \<times> reader" where
  "reader_Read [] k = (([], Some EOF), [])"
| "reader_Read ((c, e) # rest) k =
     (if length c \<le> k then ((c, e), rest) else ((take k c, None), (drop k c, e) # rest))"

text \<open>
  A destination stream records the arguments of the \<open>Write\<close> calls it received and the
  bytes it accepted. \<open>wscript\<close> holds the results \<open>(n, err)\<close> of its next calls; a call
  that finds it empty accepts all bytes. A call that returns \<open>n\<close> has accepted the first
  \<open>n\<close> bytes of its argument.
\<close>

record writer =
  wcalls :: "string list"
  content :: string
  wscript :: "(int \<times> error option) list"

definition writer_Write :: "writer \<Rightarrow> string \<Rightarrow> (int \<times> error option) \<times> writer" where
  "writer_Write w p =
     (case wscript w of
        [] \<Rightarrow> ((int (length p), None), w\<lparr>wcalls := wcalls w @ [p], content := content w @ p\<rparr>)
      | (nw, ew) # rest \<Rightarrow>
          ((nw, ew),
           w\<lparr>wcalls := wcalls w @ [p], content := content w @ take (nat nw) p, wscript := rest\<rparr>))"

text \<open>
  The message stream is modelled by the bytes sent to it: \<open>flashDevice\<close> discards the
  result of every \<open>fmt.Fprint\<close> call.
\<close>

definition Fprint :: "string \<Rightarrow> string \<Rightarrow> string" where
  "Fprint w s = w @ s"

definition Fprintln :: "string \<Rightarrow> string \<Rightarrow> string" where
  "Fprintln w s = w @ s @ [CHR 0x0A]"

section \<open>The copy\<close>

text \<open>
  \<open>io.TeeReader(source, pw).Read(buf)\<close>: reads from the source and, when bytes were read,
  passes them to the observer; an error of the observer would replace the result.
\<close>

definition teeReader_Read ::
    "reader \<Rightarrow> progressWriter \<Rightarrow> string \<Rightarrow> nat \<Rightarrow>
     (string \<times> error option) \<times> reader \<times> progressWriter \<times> string" where
  "teeReader_Read src pw out k =
     (case reader_Read src k of
        ((c, err), src1) \<Rightarrow>
          if 0 < length c
          then (case progressWriter_Write pw out c of
                  ((n, Some e), pw1, out1) \<Rightarrow> ((take n c, Some e), src1, pw1, out1)
                | ((n, None), pw1, out1) \<Rightarrow> ((c, err), src1, pw1, out1))
          else ((c, err), src1, pw, out))"

text \<open>
  One write of the loop of \<open>io.CopyBuffer\<close>, for a chunk of \<open>nr > 0\<close> bytes: the
  error the loop stops with, if any.
\<close>

definition copyWrite :: "writer \<Rightarrow> string \<Rightarrow> error option \<times> writer" where
  "copyWrite dst c =
     (case writer_Write dst c of
        ((nw, ew), dst1) \<Rightarrow>
          let nr = int (length c);
              invalid = (nw < 0 \<or> nr < nw);
              nw1 = (if invalid then 0 else nw);
              ew1 = (if invalid \<and> ew = None then Some ErrInvalidWrite else ew)
          in if ew1 \<noteq> None then (ew1, dst1)
             else if nr \<noteq> nw1 then (Some ErrShortWrite, dst1)
             else (None, dst1))"

definition bufSize :: nat where
  "bufSize = 32 * 1024 * 1024"

fun rsize :: "reader \<Rightarrow> nat" where
  "rsize [] = 0"
| "rsize ((c, e) # rest) = Suc (length c) + rsize rest"

lemma reader_Read_rsize:
  "0 < k \<Longrightarrow> reader_Read src k = ((c, None), src1) \<Longrightarrow> rsize src1 < rsize src"
  by (cases src) (auto split: if_splits)

lemma teeReader_Read_rsize:
  "0 < k \<Longrightarrow> teeReader_Read src pw out k = ((c, None), src1, pw1, out1) \<Longrightarrow> rsize src1 < rsize src"
  by (auto simp: teeReader_Read_def progressWriter_Write_def Let_def
      split: prod.splits if_splits option.splits dest: reader_Read_rsize)

text \<open>
  The loop of \<open>io.CopyBuffer(dest, readerWithProgress, buf)\<close> for a destination that is
  a plain \<open>io.Writer\<close>: read a chunk, write it, stop at the first error; \<open>io.EOF\<close>
  ends the copy without an error. The byte count it also returns is discarded by
  \<open>flashDevice\<close> and left out.
\<close>

function copyBuffer ::
    "writer \<Rightarrow> reader \<Rightarrow> progressWriter \<Rightarrow> string \<Rightarrow>
     error option \<times> writer \<times> reader \<times> progressWriter \<times> string" where
  "copyBuffer dst src pw out =
     (case teeReader_Read src pw out bufSize of
        ((c, er), src1, pw1, out1) \<Rightarrow>
          (case (if 0 < length c then copyWrite dst c else (None, dst)) of
             (Some ew, dst1) \<Rightarrow> (Some ew, dst1, src1, pw1, out1)
           | (None, dst1) \<Rightarrow>
               (case er of
                  Some e \<Rightarrow> ((if e = EOF then None else Some e), dst1, src1, pw1, out1)
                | None \<Rightarrow> copyBuffer dst1 src1 pw1 out1)))"
  by pat_completeness auto
termination
proof (relation "measure (\<lambda>(dst, src, pw, out). rsize src)")
  show "wf (measure (\<lambda>(dst, src, pw, out). rsize src))"
    by simp
next
  fix dst :: writer and src :: reader and pw :: progressWriter and out :: string
  fix x c er y src1 z pw1 out1 xa dst1 ew
  assume "(x, y) = teeReader_Read src pw out bufSize" "(c, er) = x" "(src1, z) = y"
    "(pw1, out1) = z" "er = None"
  then have "teeReader_Read src pw out bufSize = ((c, None), src1, pw1, out1)"
    by simp
  then have "rsize src1 < rsize src"
    by (rule teeReader_Read_rsize [rotated]) (simp add: bufSize_def)
  then show "((dst1, src1, pw1, out1), dst, src, pw, out)
      \<in> measure (\<lambda>(dst, src, pw, out). rsize src)"
    by simp
qed

section \<open>flashDevice\<close>

definition flashDevice ::
    "reader \<Rightarrow> writer \<Rightarrow> string \<Rightarrow> string \<Rightarrow> error option \<times> reader \<times> writer \<times> string" where
  "flashDevice source dest userInput termOut =
     (let out1 = Fprintln termOut
                   ''Flashing image to device. This will erase all data on the device.'';
          out2 = Fprint out1 ''Are you sure? [y/N]: '';
          response = TrimSpace (ReadString userInput (CHR 0x0A))
      in if response \<noteq> ''y'' \<and> response \<noteq> ''Y''
         then (None, source, dest, Fprintln out2 ''Operation cancelled.'')
         else
           let out3 = Fprintln out2 ''Starting flash operation...''
           in case copyBuffer dest source newProgressWriter out3 of
                (Some err, dest1, source1, pw1, out4) \<Rightarrow>
                  (Some (Wrapped ''error while writing to device: '' err), source1, dest1,
                   Fprintln out4 [])
              | (None, dest1, source1, pw1, out4) \<Rightarrow>
                  (None, source1, dest1,
                   Fprintln (Fprintln out4 [])
                     (ColorGreen @ [CHR 0x0A] @ ''Flash completed successfully!'' @ ColorReset)))"

section \<open>What a source stream delivers\<close>

text \<open>
  Three readings of a source stream, used to state what a copy does: the bytes it delivers
  up to and including the read that reports an error (all its bytes when none does), the
  error that ends it (\<open>None\<close> when it ends with \<open>io.EOF\<close>), and the reads left unused
  after that point.
\<close>

fun delivered :: "reader \<Rightarrow> string" where
  "delivered [] = []"
| "delivered ((c, None) # rest) = c @ delivered rest"
| "delivered ((c, Some e) # rest) = c"

fun readError :: "reader \<Rightarrow> error option" where
  "readError [] = None"
| "readError ((c, None) # rest) = readError rest"
| "readError ((c, Some e) # rest) = (if e = EOF then None else Some e)"

fun unread :: "reader \<Rightarrow> reader" where
  "unread [] = []"
| "unread ((c, None) # rest) = unread rest"
| "unread ((c, Some e) # rest) = rest"

text \<open>
  The two effects of one pass of the copy loop on a chunk that was read: the observer sees
  it, and it is written to the destination. Neither happens for an empty chunk.
\<close>

definition observe :: "progressWriter \<Rightarrow> string \<Rightarrow> string \<Rightarrow> progressWriter \<times> string" where
  "observe pw out c = (if c = [] then (pw, out) else snd (progressWriter_Write pw out c))"

definition writeChunk :: "writer \<Rightarrow> string \<Rightarrow> error option \<times> writer" where
  "writeChunk dst c = (if c = [] then (None, dst) else copyWrite dst c)"

text \<open>The text \<open>flashDevice\<close> sends to the message stream around the copy.\<close>

definition startedText :: string where
  "startedText = ''Flashing image to device. This will erase all data on the device.'' @ [CHR 0x0A] @
     ''Are you sure? [y/N]: '' @ ''Starting flash operation...'' @ [CHR 0x0A]"

definition cancelledText :: string where
  "cancelledText = ''Flashing image to device. This will erase all data on the device.'' @ [CHR 0x0A] @
     ''Are you sure? [y/N]: '' @ ''Operation cancelled.'' @ [CHR 0x0A]"

definition successText :: string where
  "successText = [CHR 0x0A] @ ColorGreen @ [CHR 0x0A] @ ''Flash completed successfully!'' @ ColorReset @ [CHR 0x0A]"

text \<open>
  The recursive equations guarded by a condition are unfolded by hand where needed.
\<close>

declare bitLen.simps [simp del] decimal.simps [simp del] TrimLeft.simps [simp del]
  TrimRight.simps [simp del] copyBuffer.simps [simp del]

section \<open>Properties of the progress observer\<close>

subsection \<open>Auxiliary facts\<close>

lemma digit_in: "digit d \<in> set ''0123456789''"
  unfolding digit_def by (rule nth_mem) simp

lemma decimal_chars: "set (decimal n) \<subseteq> set ''0123456789''"
proof (induction n rule: decimal.induct)
  case (1 n)
  show ?case
  proof (cases "n < 10")
    case True
    have "decimal n = [digit n]"
      using True by (subst decimal.simps) simp
    then show ?thesis using digit_in [of n] by simp
  next
    case False
    have "decimal n = decimal (n div 10) @ [digit (n mod 10)]"
      using False by (subst decimal.simps) simp
    then show ?thesis using 1 [OF False] digit_in [of "n mod 10"] by simp
  qed
qed

lemma fmtGB_shape:
  "\<exists>s h. fmtGB t = s @ decimal (h div 100) @ ''.'' @ [digit (h mod 100 div 10), digit (h mod 10)] \<and> (s = ''-'' \<or> s = [])"
  unfolding fmtGB_def Let_def by (cases "float64 t < 0") (simp_all only: if_True if_False, blast+)

lemma fmtGB_chars:
  assumes "c \<in> set (fmtGB t)"
  shows "c \<in> set ''0123456789'' \<or> c = CHR ''.'' \<or> c = CHR ''-''"
proof -
  obtain s h where f: "fmtGB t = s @ decimal (h div 100) @ ''.'' @ [digit (h mod 100 div 10), digit (h mod 10)]"
    and s: "s = ''-'' \<or> s = []"
    using fmtGB_shape [of t] by blast
  from assms have "c \<in> set s \<or> c \<in> set (decimal (h div 100)) \<or> c = CHR ''.'' \<or>
      c = digit (h mod 100 div 10) \<or> c = digit (h mod 10)"
    unfolding f by (simp only: set_append set_simps Un_iff insert_iff empty_iff) blast
  moreover have "c \<in> set s \<Longrightarrow> c = CHR ''-''"
    using s by auto
  moreover note decimal_chars [of "h div 100"] digit_in [of "h mod 100 div 10"] digit_in [of "h mod 10"]
  ultimately show ?thesis
    by blast
qed

lemma fmtGB_no_bang: "CHR ''!'' \<notin> set (fmtGB t)"
proof
  assume "CHR ''!'' \<in> set (fmtGB t)"
  from fmtGB_chars [OF this] show False by simp
qed

lemma fmtGB_no_cr: "CHR 0x0D \<notin> set (fmtGB t)"
proof
  assume "CHR 0x0D \<in> set (fmtGB t)"
  from fmtGB_chars [OF this] show False by simp
qed

lemma progressLine_no_bang: "CHR ''!'' \<notin> set (progressLine t)"
  using fmtGB_no_bang [of "sint t"]
  by (simp add: progressLine_def ColorYellow_def ColorReset_def)

lemma progressLine_shape:
  "\<exists>rest. progressLine t = [CHR 0x0D] @ ColorYellow @ ''Writing...'' @ rest \<and> CHR 0x0D \<notin> set rest"
  using fmtGB_no_cr [of "sint t"]
  by (simp add: progressLine_def ColorYellow_def ColorReset_def)

lemma sint_of_nat_int64: "n < 2 ^ 63 \<Longrightarrow> sint (of_nat n :: int64) = int n"
proof -
  assume n: "n < 2 ^ 63"
  have "int n < int (2 ^ 63)"
    using n by (simp only: of_nat_less_iff)
  then have "int n < 2 ^ 63"
    by simp
  then have "signed_take_bit 63 (int n) = int n"
    by (intro signed_take_bit_int_eq_self) simp_all
  moreover have "sint (of_nat n :: int64) = signed_take_bit 63 (int n)"
    using signed_of_nat [where 'b = 64 and 'a = int, of n] by simp
  ultimately show ?thesis by simp
qed

lemma sint_add_of_nat_int64:
  fixes a :: int64
  assumes "sint a + int n < 2 ^ 63"
  shows "sint (a + of_nat n) = sint a + int n"
proof -
  have lo: "- (2 ^ 63) \<le> sint a + int n"
    using sint_ge [of a] by simp
  have "a + of_nat n = word_of_int (sint a + int n)"
    by simp
  then have "sint (a + of_nat n) = signed_take_bit 63 (sint a + int n)"
    by (simp only: sint_sbintrunc') simp
  also have "\<dots> = sint a + int n"
    using lo assms by (intro signed_take_bit_int_eq_self) simp_all
  finally show ?thesis .
qed

lemma Write_cases:
  "progressWriter_Write pw out p =
     (if 2 * 1024 * 1024 < sint (total_pw pw + of_nat (length p) - lastShown_pw pw)
      then ((length p, None),
            \<lparr>total_pw = total_pw pw + of_nat (length p), lastShown_pw = total_pw pw + of_nat (length p)\<rparr>,
            out @ progressLine (total_pw pw + of_nat (length p)))
      else ((length p, None),
            \<lparr>total_pw = total_pw pw + of_nat (length p), lastShown_pw = lastShown_pw pw\<rparr>, out))"
  by (simp add: progressWriter_Write_def Let_def)

lemma writes_append:
  "writes pw out (xs @ ys) = (case writes pw out xs of (pw1, out1) \<Rightarrow> writes pw1 out1 ys)"
  by (induction xs arbitrary: pw out) (simp_all split: prod.splits)

lemma Write_extends: "\<exists>ext. snd (snd (progressWriter_Write pw out p)) = out @ ext"
  by (simp add: Write_cases)

lemma writes_extends: "\<exists>ext. snd (writes pw out ps) = out @ ext"
proof (induction ps arbitrary: pw out)
  case Nil
  show ?case by simp
next
  case (Cons p ps)
  obtain r pw1 out1 where w: "progressWriter_Write pw out p = (r, pw1, out1)"
    by (metis prod_cases3)
  obtain e1 where "out1 = out @ e1"
    using Write_extends [of pw out p] w by auto
  moreover obtain e2 where "snd (writes pw1 out1 ps) = out1 @ e2"
    using Cons.IH by blast
  ultimately show ?case
    using w by simp
qed

lemma writes_quiet:
  "lastShown_pw pw = 0 \<Longrightarrow> total_pw pw = of_nat S \<Longrightarrow> S + sum_list (map length ps) \<le> 2 * 1024 * 1024 \<Longrightarrow>
   writes pw out ps = (\<lparr>total_pw = of_nat (S + sum_list (map length ps)), lastShown_pw = 0\<rparr>, out)"
proof (induction ps arbitrary: pw S)
  case Nil
  then show ?case by simp
next
  case (Cons p ps)
  have "S + length p < 2 ^ 63"
    using Cons.prems(3) by simp
  then have "sint (of_nat (S + length p) :: int64) = int (S + length p)"
    by (rule sint_of_nat_int64)
  then have "\<not> 2 * 1024 * 1024 < sint (total_pw pw + of_nat (length p) - lastShown_pw pw)"
    using Cons.prems by simp
  then have w: "progressWriter_Write pw out p =
      ((length p, None), \<lparr>total_pw = of_nat (S + length p), lastShown_pw = 0\<rparr>, out)"
    using Cons.prems by (simp add: Write_cases)
  show ?case
    using Cons.IH [of "\<lparr>total_pw = of_nat (S + length p), lastShown_pw = 0\<rparr>" "S + length p"]
      Cons.prems(3) w
    by (simp add: add.assoc)
qed

lemma writes_loud:
  "lastShown_pw pw = 0 \<Longrightarrow> total_pw pw = of_nat S \<Longrightarrow> S \<le> 2 * 1024 * 1024 \<Longrightarrow>
   2 * 1024 * 1024 < S + sum_list (map length ps) \<Longrightarrow> S + sum_list (map length ps) < 2 ^ 63 \<Longrightarrow>
   \<exists>t ext. snd (writes pw out ps) = out @ progressLine t @ ext"
proof (induction ps arbitrary: pw S)
  case Nil
  then show ?case by simp
next
  case (Cons p ps)
  have lt: "S + length p < 2 ^ 63"
    using Cons.prems(5) by simp
  have s: "sint (of_nat (S + length p) :: int64) = int (S + length p)"
    using lt by (rule sint_of_nat_int64)
  show ?case
  proof (cases "2 * 1024 * 1024 < S + length p")
    case True
    then have "2 * 1024 * 1024 < sint (total_pw pw + of_nat (length p) - lastShown_pw pw)"
      using Cons.prems(1,2) s by simp
    then obtain pw1 where w: "progressWriter_Write pw out p =
        ((length p, None), pw1, out @ progressLine (total_pw pw + of_nat (length p)))"
      by (simp add: Write_cases)
    obtain ext where "snd (writes pw1 (out @ progressLine (total_pw pw + of_nat (length p))) ps) =
        (out @ progressLine (total_pw pw + of_nat (length p))) @ ext"
      using writes_extends by blast
    then show ?thesis
      using w by auto
  next
    case False
    then have "\<not> 2 * 1024 * 1024 < sint (total_pw pw + of_nat (length p) - lastShown_pw pw)"
      using Cons.prems(1,2) s by simp
    then have w: "progressWriter_Write pw out p =
        ((length p, None), \<lparr>total_pw = of_nat (S + length p), lastShown_pw = 0\<rparr>, out)"
      using Cons.prems by (simp add: Write_cases)
    show ?thesis
      using Cons.IH [of "\<lparr>total_pw = of_nat (S + length p), lastShown_pw = 0\<rparr>" "S + length p"]
        Cons.prems(4,5) False w
      by (simp add: add.assoc)
  qed
qed

lemma Write_inv:
  assumes t: "total_pw pw = of_nat S" and ls0: "0 \<le> sint (lastShown_pw pw)"
    and ls: "sint (lastShown_pw pw) \<le> int S" and lt: "S + length p < 2 ^ 63"
    and w: "progressWriter_Write pw out p = (r, pw1, out1)"
  shows "total_pw pw1 = of_nat (S + length p) \<and> sint (lastShown_pw pw) \<le> sint (lastShown_pw pw1) \<and>
         sint (lastShown_pw pw1) \<le> int (S + length p)"
proof -
  have s: "sint (of_nat (S + length p) :: int64) = int (S + length p)"
    using lt by (rule sint_of_nat_int64)
  have tot: "total_pw pw + of_nat (length p) = of_nat (S + length p)"
    using t by simp
  show ?thesis
  proof (cases "2 * 1024 * 1024 < sint (total_pw pw + of_nat (length p) - lastShown_pw pw)")
    case True
    then have "pw1 = \<lparr>total_pw = of_nat (S + length p), lastShown_pw = of_nat (S + length p)\<rparr>"
      using w tot by (simp add: Write_cases)
    then show ?thesis
      using s ls by simp
  next
    case False
    then have "pw1 = \<lparr>total_pw = of_nat (S + length p), lastShown_pw = lastShown_pw pw\<rparr>"
      using w tot by (simp add: Write_cases)
    then show ?thesis
      using ls by simp
  qed
qed

lemma writes_inv:
  "total_pw pw = of_nat S \<Longrightarrow> 0 \<le> sint (lastShown_pw pw) \<Longrightarrow> sint (lastShown_pw pw) \<le> int S \<Longrightarrow>
   S + sum_list (map length ps) < 2 ^ 63 \<Longrightarrow>
   total_pw (fst (writes pw out ps)) = of_nat (S + sum_list (map length ps)) \<and>
   sint (lastShown_pw pw) \<le> sint (lastShown_pw (fst (writes pw out ps))) \<and>
   sint (lastShown_pw (fst (writes pw out ps))) \<le> int (S + sum_list (map length ps))"
proof (induction ps arbitrary: pw S out)
  case Nil
  then show ?case by simp
next
  case (Cons p ps)
  obtain r pw1 out1 where w: "progressWriter_Write pw out p = (r, pw1, out1)"
    by (metis prod_cases3)
  have lt: "S + length p < 2 ^ 63"
    using Cons.prems(4) by simp
  note step = Write_inv [OF Cons.prems(1,2,3) lt w]
  have "total_pw (fst (writes pw1 out1 ps)) = of_nat (S + length p + sum_list (map length ps)) \<and>
        sint (lastShown_pw pw1) \<le> sint (lastShown_pw (fst (writes pw1 out1 ps))) \<and>
        sint (lastShown_pw (fst (writes pw1 out1 ps))) \<le> int (S + length p + sum_list (map length ps))"
  proof (rule Cons.IH)
    show "total_pw pw1 = of_nat (S + length p)" using step by simp
    show "0 \<le> sint (lastShown_pw pw1)" using step Cons.prems(2) by linarith
    show "sint (lastShown_pw pw1) \<le> int (S + length p)" using step by simp
    show "S + length p + sum_list (map length ps) < 2 ^ 63" using Cons.prems(4) by (simp add: add.assoc)
  qed
  then show ?case
    using w step by (simp add: add.assoc)
qed

lemma writes_replicate:
  assumes L: "2 * 1024 * 1024 < length c" "length c < 2 ^ 63"
  shows "lastShown_pw pw = total_pw pw \<Longrightarrow>
    fst (writes pw out (replicate k c)) =
      \<lparr>total_pw = total_pw pw + of_nat (k * length c), lastShown_pw = total_pw pw + of_nat (k * length c)\<rparr>"
proof (induction k arbitrary: pw out)
  case 0
  then show ?case by simp
next
  case (Suc k)
  have "sint (of_nat (length c) :: int64) = int (length c)"
    using L(2) by (rule sint_of_nat_int64)
  then have "2 * 1024 * 1024 < sint (total_pw pw + of_nat (length c) - lastShown_pw pw)"
    using L(1) Suc.prems by simp
  then have w: "progressWriter_Write pw out c =
      ((length c, None),
       \<lparr>total_pw = total_pw pw + of_nat (length c), lastShown_pw = total_pw pw + of_nat (length c)\<rparr>,
       out @ progressLine (total_pw pw + of_nat (length c)))"
    by (simp add: Write_cases)
  show ?case
    using Suc.IH [of "\<lparr>total_pw = total_pw pw + of_nat (length c), lastShown_pw = total_pw pw + of_nat (length c)\<rparr>"]
      w
    by (simp add: algebra_simps)
qed

subsection \<open>Claims about the progress observer\<close>

text \<open>
  C6. For every byte slice \<open>p\<close>, \<open>Write\<close> returns \<open>(len(p), nil)\<close>: it never reports an
  error, and the observed bytes are only measured. The running total grows by exactly
  \<open>len(p)\<close>: as an \<open>int64\<close> sum in every case, and as an integer sum whenever that sum
  is below \<open>2^63\<close>.
\<close>

theorem progressWriter_Write_result:
  "fst (progressWriter_Write pw out p) = (length p, None) \<and>
   total_pw (fst (snd (progressWriter_Write pw out p))) = total_pw pw + of_nat (length p) \<and>
   (sint (total_pw pw) + int (length p) < 2 ^ 63 \<longrightarrow>
      sint (total_pw (fst (snd (progressWriter_Write pw out p)))) =
        sint (total_pw pw) + int (length p))"
  by (simp add: Write_cases sint_add_of_nat_int64)

theorem progressWriter_Write_result_witness:
  "fst (progressWriter_Write newProgressWriter [] (replicate 1024 (CHR 0x00))) =
     (length (replicate 1024 (CHR 0x00)), None) \<and>
   total_pw (fst (snd (progressWriter_Write newProgressWriter [] (replicate 1024 (CHR 0x00))))) =
     total_pw newProgressWriter + of_nat (length (replicate 1024 (CHR 0x00))) \<and>
   sint (total_pw (fst (snd (progressWriter_Write newProgressWriter [] (replicate 1024 (CHR 0x00)))))) =
     sint (total_pw newProgressWriter) + int (length (replicate 1024 (CHR 0x00)))"
proof -
  have h: "sint (total_pw newProgressWriter) + int (length (replicate 1024 (CHR 0x00))) < 2 ^ 63"
    by (simp add: newProgressWriter_def)
  note t = progressWriter_Write_result [of newProgressWriter "[]" "replicate 1024 (CHR 0x00)"]
  show ?thesis
    by (intro conjI t [THEN conjunct1] t [THEN conjunct2, THEN conjunct1]
        t [THEN conjunct2, THEN conjunct2, THEN mp, OF h])
qed

text \<open>
  C4. Starting from a fresh observer, as long as the bytes observed sum to at most the
  2 MiB threshold no progress line is written. Whenever \<open>total - lastShown\<close> exceeds the
  threshold after a \<open>Write\<close>, that call writes a line that starts with a carriage
  return and contains \<open>Writing...\<close>, and \<open>lastShown\<close> becomes \<open>total\<close>. Hence a
  sequence of calls that observes more than the threshold (3 MiB, say; less than \<open>2^63\<close>
  bytes) has written at least one such line.
\<close>

theorem progress_threshold:
  "(sum_list (map length ps) \<le> 2 * 1024 * 1024 \<longrightarrow>
      snd (writes newProgressWriter out ps) = out) \<and>
   (2 * 1024 * 1024 < sint (total_pw pw + of_nat (length p) - lastShown_pw pw) \<longrightarrow>
      (\<exists>rest. snd (snd (progressWriter_Write pw out p)) =
          out @ [CHR 0x0D] @ ColorYellow @ ''Writing...'' @ rest) \<and>
      lastShown_pw (fst (snd (progressWriter_Write pw out p))) =
        total_pw (fst (snd (progressWriter_Write pw out p)))) \<and>
   (2 * 1024 * 1024 < sum_list (map length qs) \<and> sum_list (map length qs) < 2 ^ 63 \<longrightarrow>
      (\<exists>rest. snd (writes newProgressWriter out qs) =
          out @ [CHR 0x0D] @ ColorYellow @ ''Writing...'' @ rest))"
proof (intro conjI impI)
  assume "sum_list (map length ps) \<le> 2 * 1024 * 1024"
  then show "snd (writes newProgressWriter out ps) = out"
    using writes_quiet [of newProgressWriter 0 ps out] by (simp add: newProgressWriter_def)
next
  assume a: "2 * 1024 * 1024 < sint (total_pw pw + of_nat (length p) - lastShown_pw pw)"
  obtain rest where "progressLine (total_pw pw + of_nat (length p)) =
      [CHR 0x0D] @ ColorYellow @ ''Writing...'' @ rest"
    using progressLine_shape by blast
  then show "\<exists>rest. snd (snd (progressWriter_Write pw out p)) =
      out @ [CHR 0x0D] @ ColorYellow @ ''Writing...'' @ rest"
    using a by (simp add: Write_cases)
  show "lastShown_pw (fst (snd (progressWriter_Write pw out p))) =
      total_pw (fst (snd (progressWriter_Write pw out p)))"
    using a by (simp add: Write_cases)
next
  assume "2 * 1024 * 1024 < sum_list (map length qs) \<and> sum_list (map length qs) < 2 ^ 63"
  then obtain t ext where "snd (writes newProgressWriter out qs) = out @ progressLine t @ ext"
    using writes_loud [of newProgressWriter 0 qs out] by (auto simp: newProgressWriter_def)
  moreover obtain rest where "progressLine t = [CHR 0x0D] @ ColorYellow @ ''Writing...'' @ rest"
    using progressLine_shape by blast
  ultimately show "\<exists>rest. snd (writes newProgressWriter out qs) =
      out @ [CHR 0x0D] @ ColorYellow @ ''Writing...'' @ rest"
    by simp
qed

theorem progress_threshold_witness:
  "snd (writes newProgressWriter [] [replicate 1024 (CHR 0x00)]) = [] \<and>
   ((\<exists>rest. snd (snd (progressWriter_Write newProgressWriter []
        (replicate (3 * 1024 * 1024) (CHR 0x00)))) =
          [] @ [CHR 0x0D] @ ColorYellow @ ''Writing...'' @ rest) \<and>
    lastShown_pw (fst (snd (progressWriter_Write newProgressWriter []
        (replicate (3 * 1024 * 1024) (CHR 0x00))))) =
      total_pw (fst (snd (progressWriter_Write newProgressWriter []
        (replicate (3 * 1024 * 1024) (CHR 0x00)))))) \<and>
   (\<exists>rest. snd (writes newProgressWriter []
        [replicate 1024 (CHR 0x00), replicate (3 * 1024 * 1024) (CHR 0x00)]) =
          [] @ [CHR 0x0D] @ ColorYellow @ ''Writing...'' @ rest)"
proof -
  let ?small = "replicate 1024 (CHR 0x00)"
  let ?large = "replicate (3 * 1024 * 1024) (CHR 0x00)"
  have h1: "sum_list (map length [?small]) \<le> 2 * 1024 * 1024"
    by simp
  have h2: "2 * 1024 * 1024 <
      sint (total_pw newProgressWriter + of_nat (length ?large) - lastShown_pw newProgressWriter)"
    by (simp add: newProgressWriter_def)
  have h3: "2 * 1024 * 1024 < sum_list (map length [?small, ?large]) \<and>
      sum_list (map length [?small, ?large]) < 2 ^ 63"
    by simp
  note t = progress_threshold [of "[?small]" "[]" newProgressWriter ?large "[?small, ?large]"]
  show ?thesis
    using t h1 h2 h3 by blast
qed

text \<open>
  C5, as amended. Across any sequence of \<open>Write\<close> observations on a fresh observer whose
  lengths sum to less than \<open>2^63\<close> (the range of the \<open>int64\<close> counters), \<open>lastShown\<close>
  never decreases from one point of the sequence to a later one, and it never exceeds the
  running total, which is the number of bytes observed.
\<close>

theorem progress_lastShown_monotone:
  assumes "sum_list (map length (xs @ ys)) < 2 ^ 63"
  shows "sint (lastShown_pw (fst (writes newProgressWriter out xs))) \<le>
           sint (lastShown_pw (fst (writes newProgressWriter out (xs @ ys)))) \<and>
         sint (lastShown_pw (fst (writes newProgressWriter out (xs @ ys)))) \<le>
           sint (total_pw (fst (writes newProgressWriter out (xs @ ys)))) \<and>
         sint (total_pw (fst (writes newProgressWriter out (xs @ ys)))) =
           int (sum_list (map length (xs @ ys)))"
proof -
  obtain pw1 out1 where x: "writes newProgressWriter out xs = (pw1, out1)"
    by (cases "writes newProgressWriter out xs")
  have n: "total_pw newProgressWriter = of_nat 0" "0 \<le> sint (lastShown_pw newProgressWriter)"
    "sint (lastShown_pw newProgressWriter) \<le> int 0"
    by (simp_all add: newProgressWriter_def)
  have sx: "0 + sum_list (map length xs) < 2 ^ 63"
    using assms by simp
  have ix: "total_pw pw1 = of_nat (sum_list (map length xs))" "0 \<le> sint (lastShown_pw pw1)"
    "sint (lastShown_pw pw1) \<le> int (sum_list (map length xs))"
    using writes_inv [OF n sx, of out] x n(2) by simp_all
  have sy: "sum_list (map length xs) + sum_list (map length ys) < 2 ^ 63"
    using assms by simp
  have w: "writes newProgressWriter out (xs @ ys) = writes pw1 out1 ys"
    using x by (simp add: writes_append)
  have s: "sint (of_nat (sum_list (map length (xs @ ys))) :: int64) =
      int (sum_list (map length (xs @ ys)))"
    using assms by (rule sint_of_nat_int64)
  show ?thesis
    using writes_inv [OF ix sy, of out1] x w s by simp
qed

theorem progress_lastShown_monotone_witness:
  "sint (lastShown_pw (fst (writes newProgressWriter []
       [replicate 1024 (CHR 0x00), replicate (3 * 1024 * 1024) (CHR 0x00)]))) \<le>
     sint (lastShown_pw (fst (writes newProgressWriter []
       ([replicate 1024 (CHR 0x00), replicate (3 * 1024 * 1024) (CHR 0x00)] @
        [replicate 7 (CHR 0x00)])))) \<and>
   sint (lastShown_pw (fst (writes newProgressWriter []
       ([replicate 1024 (CHR 0x00), replicate (3 * 1024 * 1024) (CHR 0x00)] @
        [replicate 7 (CHR 0x00)])))) \<le>
     sint (total_pw (fst (writes newProgressWriter []
       ([replicate 1024 (CHR 0x00), replicate (3 * 1024 * 1024) (CHR 0x00)] @
        [replicate 7 (CHR 0x00)])))) \<and>
   sint (total_pw (fst (writes newProgressWriter []
       ([replicate 1024 (CHR 0x00), replicate (3 * 1024 * 1024) (CHR 0x00)] @
        [replicate 7 (CHR 0x00)])))) =
     int (sum_list (map length
       ([replicate 1024 (CHR 0x00), replicate (3 * 1024 * 1024) (CHR 0x00)] @
        [replicate 7 (CHR 0x00)])))"
proof -
  have h: "sum_list (map length
      ([replicate 1024 (CHR 0x00), replicate (3 * 1024 * 1024) (CHR 0x00)] @
       [replicate 7 (CHR 0x00)])) < 2 ^ 63"
    by simp
  show ?thesis
    by (rule progress_lastShown_monotone [OF h])
qed

text \<open>
  C5 as stated fails once the \<open>int64\<close> counters overflow: after \<open>2^38\<close> observations of
  32 MiB each (the chunk size of \<open>flashDevice\<close>; \<open>2^63\<close> bytes in all) the total has
  wrapped to \<open>-2^63\<close>, and \<open>lastShown\<close> with it, so \<open>lastShown\<close> is smaller than it was
  one observation before.
\<close>

theorem progress_lastShown_overflow:
  "sint (lastShown_pw (fst (writes newProgressWriter []
       (replicate (2 ^ 38) (replicate (32 * 1024 * 1024) (CHR 0x00))))))
   < sint (lastShown_pw (fst (writes newProgressWriter []
       (replicate (2 ^ 38 - 1) (replicate (32 * 1024 * 1024) (CHR 0x00))))))"
proof -
  let ?c = "replicate (32 * 1024 * 1024) (CHR 0x00)"
  have L: "2 * 1024 * 1024 < length ?c" "length ?c < 2 ^ 63"
    by simp_all
  have n: "lastShown_pw newProgressWriter = total_pw newProgressWriter"
    by (simp add: newProgressWriter_def)
  have a: "lastShown_pw (fst (writes newProgressWriter [] (replicate (2 ^ 38) ?c))) = of_nat (2 ^ 38 * (32 * 1024 * 1024))"
    unfolding writes_replicate [OF L n] by (simp add: newProgressWriter_def)
  have b: "lastShown_pw (fst (writes newProgressWriter [] (replicate (2 ^ 38 - 1) ?c))) = of_nat ((2 ^ 38 - 1) * (32 * 1024 * 1024))"
    unfolding writes_replicate [OF L n] by (simp add: newProgressWriter_def)
  have "sint (of_nat (2 ^ 38 * (32 * 1024 * 1024)) :: int64) = - (2 ^ 63)"
    by simp
  moreover have "sint (of_nat ((2 ^ 38 - 1) * (32 * 1024 * 1024)) :: int64) = 2 ^ 63 - 32 * 1024 * 1024"
    by simp
  ultimately show ?thesis
    unfolding a b by simp
qed

text \<open>
  C10. One \<open>Write\<close> call writes at most one progress line, whatever the size of the
  chunk: the message stream is left as it was, or exactly one line is appended and
  \<open>lastShown\<close> jumps to the new total. A progress line holds a single carriage return,
  its first byte.
\<close>

theorem progressWriter_Write_one_line:
  "(snd (snd (progressWriter_Write pw out p)) = out \<or>
    snd (snd (progressWriter_Write pw out p)) = out @ progressLine (total_pw pw + of_nat (length p)) \<and>
    lastShown_pw (fst (snd (progressWriter_Write pw out p))) = total_pw pw + of_nat (length p)) \<and>
   (\<exists>rest. progressLine t = CHR 0x0D # rest \<and> CHR 0x0D \<notin> set rest)"
proof
  show "snd (snd (progressWriter_Write pw out p)) = out \<or>
    snd (snd (progressWriter_Write pw out p)) = out @ progressLine (total_pw pw + of_nat (length p)) \<and>
    lastShown_pw (fst (snd (progressWriter_Write pw out p))) = total_pw pw + of_nat (length p)"
    by (simp add: Write_cases)
  obtain rest where "progressLine t = [CHR 0x0D] @ ColorYellow @ ''Writing...'' @ rest"
    and "CHR 0x0D \<notin> set rest"
    using progressLine_shape by blast
  then show "\<exists>rest. progressLine t = CHR 0x0D # rest \<and> CHR 0x0D \<notin> set rest"
    by (simp add: ColorYellow_def)
qed

section \<open>Properties of the copy\<close>

subsection \<open>Auxiliary facts\<close>

lemma copyBuffer_unfold:
  "copyBuffer dst src pw out =
     (case reader_Read src bufSize of
        ((c, er), src1) \<Rightarrow>
          (case writeChunk dst c of
             (Some e, dst1) \<Rightarrow> (Some e, dst1, src1, observe pw out c)
           | (None, dst1) \<Rightarrow>
               (case er of
                  Some e \<Rightarrow> ((if e = EOF then None else Some e), dst1, src1, observe pw out c)
                | None \<Rightarrow> copyBuffer dst1 src1 (fst (observe pw out c)) (snd (observe pw out c)))))"
  by (subst copyBuffer.simps)
    (simp add: teeReader_Read_def Write_cases observe_def writeChunk_def
      split: prod.splits option.splits)

lemma observe_ext: "\<exists>ts. snd (observe pw out c) = out @ concat (map progressLine ts)"
proof (cases "snd (observe pw out c) = out")
  case True
  then have "snd (observe pw out c) = out @ concat (map progressLine [])"
    by simp
  then show ?thesis by blast
next
  case False
  then have "snd (observe pw out c) = out @ concat (map progressLine [total_pw pw + of_nat (length c)])"
    by (simp add: observe_def Write_cases split: if_splits)
  then show ?thesis by blast
qed

lemma writeChunk_reliable:
  "wscript dst = [] \<Longrightarrow>
   \<exists>dst1. writeChunk dst c = (None, dst1) \<and> content dst1 = content dst @ c \<and> wscript dst1 = []"
  by (simp add: writeChunk_def copyWrite_def writer_Write_def Let_def)

lemma writeChunk_content:
  "\<exists>n. content (snd (writeChunk dst c)) = content dst @ take n c"
proof (cases "c = []")
  case True
  then show ?thesis by (simp add: writeChunk_def)
next
  case False
  obtain nw ew dst1 where w: "writer_Write dst c = ((nw, ew), dst1)"
    by (metis surj_pair)
  then have "content dst1 = content dst @ take (length c) c \<or> content dst1 = content dst @ take (nat nw) c"
    by (auto simp: writer_Write_def split: list.splits)
  moreover have "snd (writeChunk dst c) = dst1"
    using False w by (simp add: writeChunk_def copyWrite_def Let_def)
  ultimately show ?thesis by metis
qed

lemma writeChunk_ok:
  "writeChunk dst c = (None, dst1) \<Longrightarrow> content dst1 = content dst @ c"
proof (cases "c = []")
  case True
  assume "writeChunk dst c = (None, dst1)"
  then show ?thesis using True by (simp add: writeChunk_def)
next
  case False
  assume a: "writeChunk dst c = (None, dst1)"
  obtain nw ew dst2 where w: "writer_Write dst c = ((nw, ew), dst2)"
    by (metis surj_pair)
  from a False w have "nw = int (length c)" "dst2 = dst1"
    by (auto simp: writeChunk_def copyWrite_def Let_def split: if_splits)
  then show ?thesis
    using w by (auto simp: writer_Write_def split: list.splits)
qed

lemma reader_Read_facts:
  assumes "reader_Read src bufSize = ((c, er), src1)"
  shows "delivered src = c @ (if er = None then delivered src1 else [])"
    and "readError src = (case er of None \<Rightarrow> readError src1 | Some e \<Rightarrow> if e = EOF then None else Some e)"
    and "unread src = (if er = None then unread src1 else src1)"
    and "er = None \<Longrightarrow> rsize src1 < rsize src"
proof -
  have all: "delivered src = c @ (if er = None then delivered src1 else []) \<and>
    readError src = (case er of None \<Rightarrow> readError src1 | Some e \<Rightarrow> if e = EOF then None else Some e) \<and>
    unread src = (if er = None then unread src1 else src1) \<and> (er = None \<longrightarrow> rsize src1 < rsize src)"
  proof (cases src)
    case Nil
    then show ?thesis using assms by auto
  next
    case (Cons a rest)
    obtain c0 e0 where a: "a = (c0, e0)" by (cases a)
    show ?thesis
    proof (cases "length c0 \<le> bufSize")
      case True
      then have "c = c0" "er = e0" "src1 = rest"
        using assms Cons a by auto
      then show ?thesis
        using Cons a by (cases e0) auto
    next
      case False
      then have "c = take bufSize c0" "er = None" "src1 = (drop bufSize c0, e0) # rest"
        using assms Cons a by auto
      moreover have "0 < bufSize" by (simp add: bufSize_def)
      ultimately show ?thesis
        using Cons a False by (cases e0) auto
    qed
  qed
  show "delivered src = c @ (if er = None then delivered src1 else [])" using all by blast
  show "readError src = (case er of None \<Rightarrow> readError src1 | Some e \<Rightarrow> if e = EOF then None else Some e)"
    using all by blast
  show "unread src = (if er = None then unread src1 else src1)" using all by blast
  show "er = None \<Longrightarrow> rsize src1 < rsize src" using all by blast
qed

lemma take_append_exact: "take (length c + n) (c @ d) = c @ take n d"
  by simp

lemma copyBuffer_general:
  "\<exists>e dst1 src1 pw1 ts n.
     copyBuffer dst src pw out = (e, dst1, src1, pw1, out @ concat (map progressLine ts)) \<and>
     content dst1 = content dst @ take n (delivered src) \<and>
     (e = None \<longrightarrow> content dst1 = content dst @ delivered src \<and> readError src = None \<and>
        src1 = unread src) \<and>
     (wscript dst = [] \<longrightarrow> e = readError src \<and> src1 = unread src \<and>
        content dst1 = content dst @ delivered src \<and> wscript dst1 = [])"
proof (induction src arbitrary: dst pw out rule: measure_induct_rule [where f = rsize])
  case (less src)
  obtain c er src1 where rd: "reader_Read src bufSize = ((c, er), src1)"
    by (metis surj_pair)
  obtain ew dstA where wr: "writeChunk dst c = (ew, dstA)"
    by (cases "writeChunk dst c")
  obtain pwA outA where ob: "observe pw out c = (pwA, outA)"
    by (cases "observe pw out c")
  obtain ts0 where outA: "outA = out @ concat (map progressLine ts0)"
    using observe_ext [of pw out c] ob by auto
  obtain n0 where cA: "content dstA = content dst @ take n0 c"
    using writeChunk_content [of dst c] wr by auto
  note facts = reader_Read_facts [OF rd]
  have rel: "wscript dst = [] \<Longrightarrow> ew = None \<and> wscript dstA = []"
    using writeChunk_reliable [of dst c] wr by auto
  show ?case
  proof (cases ew)
    case (Some e)
    then have cb: "copyBuffer dst src pw out = (Some e, dstA, src1, pwA, out @ concat (map progressLine ts0))"
      using rd wr ob outA by (simp add: copyBuffer_unfold [of dst src])
    have "take n0 c = take (min n0 (length c)) c"
      by (simp add: min_def)
    then have "take n0 c = take (min n0 (length c)) (delivered src)"
      using facts(1) by simp
    then have "content dstA = content dst @ take (min n0 (length c)) (delivered src)"
      using cA by simp
    then show ?thesis
      using cb Some rel by blast
  next
    case None
    then have cA': "content dstA = content dst @ c"
      using wr writeChunk_ok by blast
    show ?thesis
    proof (cases er)
      case (Some x)
      then have cb: "copyBuffer dst src pw out =
          ((if x = EOF then None else Some x), dstA, src1, pwA, out @ concat (map progressLine ts0))"
        using rd wr ob outA None by (simp add: copyBuffer_unfold [of dst src])
      have d: "delivered src = c" "readError src = (if x = EOF then None else Some x)"
        "unread src = src1"
        using facts(1,2,3) Some by simp_all
      have "content dstA = content dst @ take (length c) (delivered src)"
        using cA' d by simp
      then show ?thesis
        using cb d cA' rel by (intro exI conjI) (blast | simp)+
    next
      case er: None
      have cb: "copyBuffer dst src pw out = copyBuffer dstA src1 pwA outA"
        using rd wr ob None er by (simp add: copyBuffer_unfold [of dst src])
      have d: "delivered src = c @ delivered src1" "readError src = readError src1"
        "unread src = unread src1"
        using facts(1,2,3) er by simp_all
      have "rsize src1 < rsize src"
        using facts(4) er by simp
      from less.IH [OF this, of dstA pwA outA]
      obtain e dst1 src2 pw1 ts n where
        ih: "copyBuffer dstA src1 pwA outA = (e, dst1, src2, pw1, outA @ concat (map progressLine ts))"
        and ihc: "content dst1 = content dstA @ take n (delivered src1)"
        and ihn: "e = None \<longrightarrow> content dst1 = content dstA @ delivered src1 \<and> readError src1 = None \<and>
            src2 = unread src1"
        and ihr: "wscript dstA = [] \<longrightarrow> e = readError src1 \<and> src2 = unread src1 \<and>
            content dst1 = content dstA @ delivered src1 \<and> wscript dst1 = []"
        by blast
      have o: "outA @ concat (map progressLine ts) = out @ concat (map progressLine (ts0 @ ts))"
        using outA by simp
      have c1: "content dst1 = content dst @ take (length c + n) (delivered src)"
        using ihc cA' d(1) by simp
      have "copyBuffer dst src pw out = (e, dst1, src2, pw1, out @ concat (map progressLine (ts0 @ ts)))"
        using cb ih o by simp
      moreover have "e = None \<longrightarrow> content dst1 = content dst @ delivered src \<and> readError src = None \<and>
            src2 = unread src"
        using ihn cA' d by simp
      moreover have "wscript dst = [] \<longrightarrow> e = readError src \<and> src2 = unread src \<and>
            content dst1 = content dst @ delivered src \<and> wscript dst1 = []"
        using ihr rel cA' d by simp
      ultimately show ?thesis
        using c1 by blast
    qed
  qed
qed

lemma flashDevice_refuse:
  assumes "TrimSpace (ReadString userInput (CHR 0x0A)) \<noteq> ''y''"
    and "TrimSpace (ReadString userInput (CHR 0x0A)) \<noteq> ''Y''"
  shows "flashDevice source dest userInput termOut = (None, source, dest, termOut @ cancelledText)"
  using assms by (simp add: flashDevice_def Let_def Fprint_def Fprintln_def cancelledText_def)

lemma flashDevice_affirm:
  assumes "TrimSpace (ReadString userInput (CHR 0x0A)) = ''y'' \<or>
    TrimSpace (ReadString userInput (CHR 0x0A)) = ''Y''"
  shows "flashDevice source dest userInput termOut =
    (case copyBuffer dest source newProgressWriter (termOut @ startedText) of
       (Some err, dest1, source1, pw1, out4) \<Rightarrow>
         (Some (Wrapped ''error while writing to device: '' err), source1, dest1, out4 @ [CHR 0x0A])
     | (None, dest1, source1, pw1, out4) \<Rightarrow> (None, source1, dest1, out4 @ successText))"
  using assms
  by (auto simp: flashDevice_def Let_def Fprint_def Fprintln_def startedText_def successText_def
      split: prod.splits option.splits)

lemma no_bang_started: "CHR ''!'' \<notin> set startedText"
  by (simp add: startedText_def)

lemma no_bang_lines: "CHR ''!'' \<notin> set (concat (map progressLine ts))"
  using progressLine_no_bang by auto

lemma no_success_without_bang:
  "CHR ''!'' \<notin> set xs \<Longrightarrow> \<not> sublist ''Flash completed successfully!'' xs"
proof
  assume a: "CHR ''!'' \<notin> set xs" and b: "sublist ''Flash completed successfully!'' xs"
  from b have "set ''Flash completed successfully!'' \<subseteq> set xs"
    by (rule set_mono_sublist)
  then have "CHR ''!'' \<in> set xs"
    by simp
  with a show False by simp
qed

lemma success_in_successText: "sublist ''Flash completed successfully!'' (pre @ successText)"
proof -
  have "pre @ successText =
      (pre @ [CHR 0x0A] @ ColorGreen @ [CHR 0x0A]) @ ''Flash completed successfully!'' @ (ColorReset @ [CHR 0x0A])"
    by (simp add: successText_def)
  then show ?thesis
    by (metis sublist_appendI)
qed

lemma cancelled_in_cancelledText: "sublist ''Operation cancelled.'' cancelledText"
proof -
  have "cancelledText =
      (''Flashing image to device. This will erase all data on the device.'' @ [CHR 0x0A] @
       ''Are you sure? [y/N]: '') @ ''Operation cancelled.'' @ [CHR 0x0A]"
    by (simp add: cancelledText_def)
  then show ?thesis
    by (metis sublist_appendI)
qed

lemma plain_source:
  "delivered (map (\<lambda>c. (c, None)) cs) = concat cs \<and> readError (map (\<lambda>c. (c, None)) cs) = None \<and>
   unread (map (\<lambda>c. (c, None)) cs) = []"
  by (induction cs) simp_all

lemma copyBuffer_write_fault:
  "\<forall>c' \<in> set (c # cs). c' \<noteq> [] \<and> length c' \<le> bufSize \<Longrightarrow>
   wscript dst = map (\<lambda>c. (int (length c), None)) cs @ (nw, Some e) # ws \<Longrightarrow>
   0 \<le> nw \<Longrightarrow> nw \<le> int (length c) \<Longrightarrow>
   \<exists>dst1 pw1 ts.
     copyBuffer dst (map (\<lambda>c. (c, None)) cs @ (c, x) # rest) pw out =
       (Some e, dst1, rest, pw1, out @ concat (map progressLine ts)) \<and>
     content dst1 = content dst @ concat cs @ take (nat nw) c \<and>
     wcalls dst1 = wcalls dst @ cs @ [c] \<and> wscript dst1 = ws"
proof (induction cs arbitrary: dst pw out)
  case Nil
  obtain pwA outA where ob: "observe pw out c = (pwA, outA)"
    by (cases "observe pw out c")
  obtain ts0 where outA: "outA = out @ concat (map progressLine ts0)"
    using observe_ext [of pw out c] ob by auto
  have c: "c \<noteq> []" "length c \<le> bufSize"
    using Nil.prems(1) by simp_all
  have rd: "reader_Read ((c, x) # rest) bufSize = ((c, x), rest)"
    using c by simp
  have wr: "writeChunk dst c =
      (Some e, dst\<lparr>wcalls := wcalls dst @ [c], content := content dst @ take (nat nw) c, wscript := ws\<rparr>)"
    using c Nil.prems(2,3,4) by (simp add: writeChunk_def copyWrite_def writer_Write_def Let_def)
  have "copyBuffer dst ((c, x) # rest) pw out =
      (Some e, dst\<lparr>wcalls := wcalls dst @ [c], content := content dst @ take (nat nw) c, wscript := ws\<rparr>,
       rest, pwA, out @ concat (map progressLine ts0))"
    using rd wr ob outA by (simp add: copyBuffer_unfold [of dst "(c, x) # rest"])
  then show ?case
    by (intro exI [of _ "dst\<lparr>wcalls := wcalls dst @ [c], content := content dst @ take (nat nw) c, wscript := ws\<rparr>"]
        exI [of _ pwA] exI [of _ ts0]) simp
next
  case (Cons c0 cs)
  obtain pwA outA where ob: "observe pw out c0 = (pwA, outA)"
    by (cases "observe pw out c0")
  obtain ts0 where outA: "outA = out @ concat (map progressLine ts0)"
    using observe_ext [of pw out c0] ob by auto
  have c0: "c0 \<noteq> []" "length c0 \<le> bufSize"
    using Cons.prems(1) by simp_all
  let ?src1 = "map (\<lambda>c. (c, None)) cs @ (c, x) # rest"
  let ?dstA = "dst\<lparr>wcalls := wcalls dst @ [c0], content := content dst @ c0,
      wscript := map (\<lambda>c. (int (length c), None)) cs @ (nw, Some e) # ws\<rparr>"
  have rd: "reader_Read ((c0, None) # ?src1) bufSize = ((c0, None), ?src1)"
    using c0 by simp
  have wr: "writeChunk dst c0 = (None, ?dstA)"
    using c0 Cons.prems(2) by (simp add: writeChunk_def copyWrite_def writer_Write_def Let_def)
  have cb: "copyBuffer dst (map (\<lambda>c. (c, None)) (c0 # cs) @ (c, x) # rest) pw out =
      copyBuffer ?dstA ?src1 pwA outA"
    using rd wr ob by (simp add: copyBuffer_unfold [of dst "(c0, None) # ?src1"])
  have p1: "\<forall>c' \<in> set (c # cs). c' \<noteq> [] \<and> length c' \<le> bufSize"
    using Cons.prems(1) by simp
  have p2: "wscript ?dstA = map (\<lambda>c. (int (length c), None)) cs @ (nw, Some e) # ws"
    by simp
  from Cons.IH [OF p1 p2 Cons.prems(3,4), of pwA outA]
  obtain dst1 pw1 ts where
    ih: "copyBuffer ?dstA ?src1 pwA outA = (Some e, dst1, rest, pw1, outA @ concat (map progressLine ts))"
    and ihc: "content dst1 = content ?dstA @ concat cs @ take (nat nw) c"
    and ihw: "wcalls dst1 = wcalls ?dstA @ cs @ [c]" "wscript dst1 = ws"
    by blast
  have "outA @ concat (map progressLine ts) = out @ concat (map progressLine (ts0 @ ts))"
    using outA by simp
  then have "copyBuffer dst (map (\<lambda>c. (c, None)) (c0 # cs) @ (c, x) # rest) pw out =
      (Some e, dst1, rest, pw1, out @ concat (map progressLine (ts0 @ ts)))"
    using cb ih by simp
  moreover have "content dst1 = content dst @ concat (c0 # cs) @ take (nat nw) c"
    using ihc by simp
  moreover have "wcalls dst1 = wcalls dst @ (c0 # cs) @ [c]"
    using ihw by simp
  ultimately show ?case
    using ihw(2) by blast
qed

lemma answer_y_newline: "TrimSpace (ReadString (''y'' @ [CHR 0x0A]) (CHR 0x0A)) = ''y''"
  by code_simp

lemma answer_n_newline: "TrimSpace (ReadString (''n'' @ [CHR 0x0A]) (CHR 0x0A)) = ''n''"
  by code_simp

lemma answer_y_bare: "ReadString ''y'' (CHR 0x0A) = ''y'' \<and> TrimSpace (ReadString ''y'' (CHR 0x0A)) = ''y''"
  by code_simp

lemma answer_Y_bare: "ReadString ''Y'' (CHR 0x0A) = ''Y'' \<and> TrimSpace (ReadString ''Y'' (CHR 0x0A)) = ''Y''"
  by code_simp

lemma answer_Y_newline: "TrimSpace (ReadString (''Y'' @ [CHR 0x0A]) (CHR 0x0A)) = ''Y''"
  by code_simp

lemma answer_eof: "TrimSpace (ReadString [] (CHR 0x0A)) = []"
  by code_simp

lemma flashDevice_affirm_success:
  assumes "TrimSpace (ReadString userInput (CHR 0x0A)) = ''y'' \<or>
      TrimSpace (ReadString userInput (CHR 0x0A)) = ''Y''"
    and "readError source = None" and "wscript dest = []"
  shows "\<exists>dest1 emitted.
      flashDevice source dest userInput termOut = (None, unread source, dest1, termOut @ emitted) \<and>
      content dest1 = content dest @ delivered source \<and>
      sublist ''Flash completed successfully!'' emitted"
proof -
  obtain e dest1 src1 pw1 ts where
    cb: "copyBuffer dest source newProgressWriter (termOut @ startedText) =
      (e, dest1, src1, pw1, (termOut @ startedText) @ concat (map progressLine ts))"
    and r: "wscript dest = [] \<longrightarrow> e = readError source \<and> src1 = unread source \<and>
        content dest1 = content dest @ delivered source \<and> wscript dest1 = []"
    using copyBuffer_general [of dest source newProgressWriter "termOut @ startedText"] by blast
  have e: "e = None" "src1 = unread source" "content dest1 = content dest @ delivered source"
    using r assms(2,3) by simp_all
  have "flashDevice source dest userInput termOut =
      (None, unread source, dest1,
       termOut @ (startedText @ concat (map progressLine ts)) @ successText)"
    using flashDevice_affirm [OF assms(1), of source dest termOut] cb e by simp
  moreover have "sublist ''Flash completed successfully!''
      ((startedText @ concat (map progressLine ts)) @ successText)"
    by (rule success_in_successText)
  ultimately show ?thesis
    using e(3) by blast
qed

lemma flashDevice_affirm_nil:
  assumes "TrimSpace (ReadString userInput (CHR 0x0A)) = ''y'' \<or>
      TrimSpace (ReadString userInput (CHR 0x0A)) = ''Y''"
    and run: "flashDevice source dest userInput termOut = (None, source1, dest1, out1)"
  shows "content dest1 = content dest @ delivered source \<and> readError source = None \<and>
    source1 = unread source \<and>
    (\<exists>emitted. out1 = termOut @ emitted \<and> sublist ''Flash completed successfully!'' emitted)"
proof -
  obtain r dst1 src1 pw1 ts where
    cb: "copyBuffer dest source newProgressWriter (termOut @ startedText) =
      (r, dst1, src1, pw1, (termOut @ startedText) @ concat (map progressLine ts))"
    and n: "r = None \<longrightarrow> content dst1 = content dest @ delivered source \<and> readError source = None \<and>
        src1 = unread source"
    using copyBuffer_general [of dest source newProgressWriter "termOut @ startedText"] by blast
  have r: "r = None"
    using run flashDevice_affirm [OF assms(1), of source dest termOut] cb by (cases r) auto
  have res: "source1 = src1" "dest1 = dst1"
    "out1 = termOut @ (startedText @ concat (map progressLine ts)) @ successText"
    using run flashDevice_affirm [OF assms(1), of source dest termOut] cb r by simp_all
  have "sublist ''Flash completed successfully!''
      ((startedText @ concat (map progressLine ts)) @ successText)"
    by (rule success_in_successText)
  then show ?thesis
    using res n r by blast
qed

subsection \<open>Claims about flashDevice\<close>

text \<open>
  C1. Let the confirmation line trim to \<open>y\<close> or \<open>Y\<close>. For every source stream that ends
  without a read error and a destination that accepts every write, \<open>flashDevice\<close> returns
  \<open>nil\<close>, the destination holds what it held followed by exactly the bytes of the source,
  and the text sent to the message stream contains \<open>Flash completed successfully!\<close>. For
  any destination, whenever \<open>flashDevice\<close> returns \<open>nil\<close> the same holds. A source that
  delivers the chunks \<open>cs\<close> (any chunking, the empty sequence included) delivers
  \<open>concat cs\<close> without an error.
\<close>

theorem flashDevice_copies:
  assumes "TrimSpace (ReadString userInput (CHR 0x0A)) = ''y'' \<or>
      TrimSpace (ReadString userInput (CHR 0x0A)) = ''Y''"
  shows "(readError source = None \<and> wscript dest = [] \<longrightarrow>
       (\<exists>dest1 emitted.
          flashDevice source dest userInput termOut = (None, unread source, dest1, termOut @ emitted) \<and>
          content dest1 = content dest @ delivered source \<and>
          sublist ''Flash completed successfully!'' emitted)) \<and>
    (flashDevice source dest userInput termOut = (None, source2, dest2, out2) \<longrightarrow>
       content dest2 = content dest @ delivered source \<and> readError source = None \<and>
       (\<exists>emitted. out2 = termOut @ emitted \<and> sublist ''Flash completed successfully!'' emitted)) \<and>
    delivered (map (\<lambda>c. (c, None)) cs) = concat cs \<and>
    readError (map (\<lambda>c. (c, None)) cs) = None"
proof (intro conjI impI)
  assume "readError source = None \<and> wscript dest = []"
  then show "\<exists>dest1 emitted.
      flashDevice source dest userInput termOut = (None, unread source, dest1, termOut @ emitted) \<and>
      content dest1 = content dest @ delivered source \<and>
      sublist ''Flash completed successfully!'' emitted"
    using flashDevice_affirm_success [OF assms, of source dest termOut] by blast
next
  assume run: "flashDevice source dest userInput termOut = (None, source2, dest2, out2)"
  note n = flashDevice_affirm_nil [OF assms run]
  show "content dest2 = content dest @ delivered source" using n by blast
  show "readError source = None" using n by blast
  show "\<exists>emitted. out2 = termOut @ emitted \<and> sublist ''Flash completed successfully!'' emitted"
    using n by blast
next
  show "delivered (map (\<lambda>c. (c, None)) cs) = concat cs"
    using plain_source [of cs] by blast
  show "readError (map (\<lambda>c. (c, None)) cs) = None"
    using plain_source [of cs] by blast
qed

theorem flashDevice_copies_witness:
  "(\<exists>dest1 emitted.
      flashDevice [(''Questa '' @ [CHR 0xC3, CHR 0xA8] @ '' l'' @ [CHR 0x27] @ ''immagine di test'', None)]
          \<lparr>wcalls = [], content = [], wscript = []\<rparr> (''y'' @ [CHR 0x0A]) [] =
        (None,
         unread [(''Questa '' @ [CHR 0xC3, CHR 0xA8] @ '' l'' @ [CHR 0x27] @ ''immagine di test'', None)],
         dest1, [] @ emitted) \<and>
      content dest1 = content \<lparr>wcalls = [], content = [], wscript = []\<rparr> @
        delivered [(''Questa '' @ [CHR 0xC3, CHR 0xA8] @ '' l'' @ [CHR 0x27] @ ''immagine di test'', None)] \<and>
      sublist ''Flash completed successfully!'' emitted \<and>
      readError [(''Questa '' @ [CHR 0xC3, CHR 0xA8] @ '' l'' @ [CHR 0x27] @ ''immagine di test'', None)] =
        None) \<and>
    delivered (map (\<lambda>c. (c, None)) [''Questa '', [CHR 0xC3, CHR 0xA8] @ '' l'', []]) =
      concat [''Questa '', [CHR 0xC3, CHR 0xA8] @ '' l'', []] \<and>
    readError (map (\<lambda>c. (c, None)) [''Questa '', [CHR 0xC3, CHR 0xA8] @ '' l'', []]) = None"
proof -
  let ?src = "[(''Questa '' @ [CHR 0xC3, CHR 0xA8] @ '' l'' @ [CHR 0x27] @ ''immagine di test'', None)]"
  let ?dst = "\<lparr>wcalls = [], content = [], wscript = []\<rparr>"
  let ?cs = "[''Questa '', [CHR 0xC3, CHR 0xA8] @ '' l'', []]"
  have h: "TrimSpace (ReadString (''y'' @ [CHR 0x0A]) (CHR 0x0A)) = ''y'' \<or>
      TrimSpace (ReadString (''y'' @ [CHR 0x0A]) (CHR 0x0A)) = ''Y''"
    using answer_y_newline by simp
  have g: "readError ?src = None \<and> wscript ?dst = []"
    by simp
  note p1 = flashDevice_copies [OF h, where source = ?src and dest = ?dst and termOut = "[]",
      THEN conjunct1, THEN mp, OF g]
  then obtain dest1 emitted where
    run: "flashDevice ?src ?dst (''y'' @ [CHR 0x0A]) [] = (None, unread ?src, dest1, [] @ emitted)"
    and c: "content dest1 = content ?dst @ delivered ?src"
    and m: "sublist ''Flash completed successfully!'' emitted"
    by (elim exE conjE)
  note p2 = flashDevice_copies [OF h, where source = ?src and dest = ?dst and termOut = "[]",
      THEN conjunct2, THEN conjunct1, THEN mp, OF run]
  note p3 = flashDevice_copies [OF h, where cs = ?cs, THEN conjunct2, THEN conjunct2]
  have first: "\<exists>dest1 emitted.
      flashDevice ?src ?dst (''y'' @ [CHR 0x0A]) [] = (None, unread ?src, dest1, [] @ emitted) \<and>
      content dest1 = content ?dst @ delivered ?src \<and>
      sublist ''Flash completed successfully!'' emitted \<and>
      readError ?src = None"
    by (intro exI conjI) (rule run p2 [THEN conjunct1] m p2 [THEN conjunct2, THEN conjunct1])+
  show ?thesis
    by (intro conjI first p3 [THEN conjunct1] p3 [THEN conjunct2])
qed

text \<open>
  C2. When the confirmation line, trimmed, is neither \<open>y\<close> nor \<open>Y\<close>, \<open>flashDevice\<close>
  returns \<open>nil\<close>, the destination is returned as it was (it received no \<open>Write\<close> call) and
  the text sent to the message stream contains \<open>Operation cancelled.\<close>. End-of-input, an
  empty line, \<open>n\<close>, \<open>N\<close> and \<open>no\<close> are such answers.
\<close>

theorem flashDevice_refusal:
  "(TrimSpace (ReadString userInput (CHR 0x0A)) \<noteq> ''y'' \<and>
    TrimSpace (ReadString userInput (CHR 0x0A)) \<noteq> ''Y'' \<longrightarrow>
      (\<exists>emitted.
         flashDevice source dest userInput termOut = (None, source, dest, termOut @ emitted) \<and>
         sublist ''Operation cancelled.'' emitted)) \<and>
   TrimSpace (ReadString [] (CHR 0x0A)) = [] \<and>
   TrimSpace (ReadString [CHR 0x0A] (CHR 0x0A)) = [] \<and>
   TrimSpace (ReadString (''n'' @ [CHR 0x0A]) (CHR 0x0A)) = ''n'' \<and>
   TrimSpace (ReadString (''N'' @ [CHR 0x0A]) (CHR 0x0A)) = ''N'' \<and>
   TrimSpace (ReadString (''no'' @ [CHR 0x0A]) (CHR 0x0A)) = ''no''"
proof (intro conjI impI)
  assume "TrimSpace (ReadString userInput (CHR 0x0A)) \<noteq> ''y'' \<and>
    TrimSpace (ReadString userInput (CHR 0x0A)) \<noteq> ''Y''"
  then have "flashDevice source dest userInput termOut = (None, source, dest, termOut @ cancelledText)"
    by (simp add: flashDevice_refuse)
  then show "\<exists>emitted.
      flashDevice source dest userInput termOut = (None, source, dest, termOut @ emitted) \<and>
      sublist ''Operation cancelled.'' emitted"
    using cancelled_in_cancelledText by blast
qed code_simp+

theorem flashDevice_refusal_witness:
  "\<exists>emitted.
     flashDevice [(''Dati che non dovrebbero mai essere scritti'', None)]
         \<lparr>wcalls = [], content = [], wscript = []\<rparr> (''n'' @ [CHR 0x0A]) [] =
       (None, [(''Dati che non dovrebbero mai essere scritti'', None)],
        \<lparr>wcalls = [], content = [], wscript = []\<rparr>, [] @ emitted) \<and>
     sublist ''Operation cancelled.'' emitted"
proof -
  have h: "TrimSpace (ReadString (''n'' @ [CHR 0x0A]) (CHR 0x0A)) \<noteq> ''y'' \<and>
      TrimSpace (ReadString (''n'' @ [CHR 0x0A]) (CHR 0x0A)) \<noteq> ''Y''"
    using answer_n_newline by simp
  show ?thesis
    using flashDevice_refusal [of "''n'' @ [CHR 0x0A]"
        "[(''Dati che non dovrebbero mai essere scritti'', None)]"
        "\<lparr>wcalls = [], content = [], wscript = []\<rparr>" "[]"] h
    by blast
qed

text \<open>
  C3. After an affirmative answer, whenever \<open>flashDevice\<close> returns an error, that error wraps
  the cause, the text sent to the message stream ends with a line break and does not
  contain the success message, and the destination holds what it held followed by a prefix
  of the source bytes. A read that fails (with a destination that accepts every write)
  makes \<open>flashDevice\<close> return the wrapped read error, with the bytes delivered up to the
  fault written and no read made after it. A write that fails after the chunks \<open>cs\<close> were
  accepted, having taken \<open>nw\<close> bytes of the next chunk, makes it return the wrapped write
  error, with exactly these bytes in the destination, no further write and no further
  read.
\<close>

theorem flashDevice_failure:
  assumes "TrimSpace (ReadString userInput (CHR 0x0A)) = ''y'' \<or>
      TrimSpace (ReadString userInput (CHR 0x0A)) = ''Y''"
  shows
    "(flashDevice source dest userInput termOut = (Some err, source1, dest1, out1) \<longrightarrow>
        (\<exists>cause emitted n.
           err = Wrapped ''error while writing to device: '' cause \<and>
           out1 = termOut @ emitted @ [CHR 0x0A] \<and>
           \<not> sublist ''Flash completed successfully!'' (emitted @ [CHR 0x0A]) \<and>
           content dest1 = content dest @ take n (delivered source))) \<and>
     (wscript dest = [] \<and> readError source = Some e \<longrightarrow>
        (\<exists>dest2 out2.
           flashDevice source dest userInput termOut =
             (Some (Wrapped ''error while writing to device: '' e), unread source, dest2, out2) \<and>
           content dest2 = content dest @ delivered source)) \<and>
     ((\<forall>c' \<in> set (c # cs). c' \<noteq> [] \<and> length c' \<le> bufSize) \<and>
      wscript dest = map (\<lambda>c. (int (length c), None)) cs @ (nw, Some e) # ws \<and>
      0 \<le> nw \<and> nw \<le> int (length c) \<longrightarrow>
        (\<exists>dest2 out2.
           flashDevice (map (\<lambda>c. (c, None)) cs @ (c, x) # rest) dest userInput termOut =
             (Some (Wrapped ''error while writing to device: '' e), rest, dest2, out2) \<and>
           content dest2 = content dest @ concat cs @ take (nat nw) c \<and>
           wcalls dest2 = wcalls dest @ cs @ [c]))"
proof (intro conjI impI)
  assume run: "flashDevice source dest userInput termOut = (Some err, source1, dest1, out1)"
  obtain r dst1 src1 pw1 ts n where
    cb: "copyBuffer dest source newProgressWriter (termOut @ startedText) =
      (r, dst1, src1, pw1, (termOut @ startedText) @ concat (map progressLine ts))"
    and c: "content dst1 = content dest @ take n (delivered source)"
    using copyBuffer_general [of dest source newProgressWriter "termOut @ startedText"] by blast
  obtain cause where r: "r = Some cause"
    using run flashDevice_affirm [OF assms, of source dest termOut] cb by (cases r) auto
  have res: "err = Wrapped ''error while writing to device: '' cause" "dest1 = dst1"
    "out1 = termOut @ (startedText @ concat (map progressLine ts)) @ [CHR 0x0A]"
    using run flashDevice_affirm [OF assms, of source dest termOut] cb r by simp_all
  have "CHR ''!'' \<notin> set ((startedText @ concat (map progressLine ts)) @ [CHR 0x0A])"
    using no_bang_started no_bang_lines [of ts] by simp
  then have "\<not> sublist ''Flash completed successfully!''
      ((startedText @ concat (map progressLine ts)) @ [CHR 0x0A])"
    by (rule no_success_without_bang)
  then show "\<exists>cause emitted n.
      err = Wrapped ''error while writing to device: '' cause \<and>
      out1 = termOut @ emitted @ [CHR 0x0A] \<and>
      \<not> sublist ''Flash completed successfully!'' (emitted @ [CHR 0x0A]) \<and>
      content dest1 = content dest @ take n (delivered source)"
    using res c by blast
next
  assume a: "wscript dest = [] \<and> readError source = Some e"
  obtain r dst1 src1 pw1 ts where
    cb: "copyBuffer dest source newProgressWriter (termOut @ startedText) =
      (r, dst1, src1, pw1, (termOut @ startedText) @ concat (map progressLine ts))"
    and rel: "wscript dest = [] \<longrightarrow> r = readError source \<and> src1 = unread source \<and>
        content dst1 = content dest @ delivered source \<and> wscript dst1 = []"
    using copyBuffer_general [of dest source newProgressWriter "termOut @ startedText"] by blast
  have "r = Some e" "src1 = unread source" "content dst1 = content dest @ delivered source"
    using rel a by simp_all
  then show "\<exists>dest2 out2.
      flashDevice source dest userInput termOut =
        (Some (Wrapped ''error while writing to device: '' e), unread source, dest2, out2) \<and>
      content dest2 = content dest @ delivered source"
    using flashDevice_affirm [OF assms, of source dest termOut] cb by simp
next
  assume a: "(\<forall>c' \<in> set (c # cs). c' \<noteq> [] \<and> length c' \<le> bufSize) \<and>
      wscript dest = map (\<lambda>c. (int (length c), None)) cs @ (nw, Some e) # ws \<and>
      0 \<le> nw \<and> nw \<le> int (length c)"
  then obtain dst1 pw1 ts where
    cb: "copyBuffer dest (map (\<lambda>c. (c, None)) cs @ (c, x) # rest) newProgressWriter
        (termOut @ startedText) =
      (Some e, dst1, rest, pw1, (termOut @ startedText) @ concat (map progressLine ts))"
    and c: "content dst1 = content dest @ concat cs @ take (nat nw) c"
      "wcalls dst1 = wcalls dest @ cs @ [c]"
    using copyBuffer_write_fault [of c cs dest nw e ws x rest newProgressWriter "termOut @ startedText"]
    by blast
  show "\<exists>dest2 out2.
      flashDevice (map (\<lambda>c. (c, None)) cs @ (c, x) # rest) dest userInput termOut =
        (Some (Wrapped ''error while writing to device: '' e), rest, dest2, out2) \<and>
      content dest2 = content dest @ concat cs @ take (nat nw) c \<and>
      wcalls dest2 = wcalls dest @ cs @ [c]"
    using flashDevice_affirm [OF assms, of "map (\<lambda>c. (c, None)) cs @ (c, x) # rest" dest termOut]
      cb c by simp
qed

theorem flashDevice_failure_witness:
  "(\<exists>cause emitted n dest2 out2.
      flashDevice [(''abc'', None), (''de'', Some (Cause ''fault'')), (''zzz'', None)]
          \<lparr>wcalls = [], content = [], wscript = []\<rparr> (''y'' @ [CHR 0x0A]) [] =
        (Some (Wrapped ''error while writing to device: '' (Cause ''fault'')),
         unread [(''abc'', None), (''de'', Some (Cause ''fault'')), (''zzz'', None)], dest2, out2) \<and>
      content dest2 = content \<lparr>wcalls = [], content = [], wscript = []\<rparr> @
        delivered [(''abc'', None), (''de'', Some (Cause ''fault'')), (''zzz'', None)] \<and>
      Wrapped ''error while writing to device: '' (Cause ''fault'') =
        Wrapped ''error while writing to device: '' cause \<and>
      out2 = [] @ emitted @ [CHR 0x0A] \<and>
      \<not> sublist ''Flash completed successfully!'' (emitted @ [CHR 0x0A]) \<and>
      content dest2 = content \<lparr>wcalls = [], content = [], wscript = []\<rparr> @
        take n (delivered [(''abc'', None), (''de'', Some (Cause ''fault'')), (''zzz'', None)])) \<and>
   (\<exists>dest2 out2.
      flashDevice (map (\<lambda>c. (c, None)) [''abc''] @ (''de'', None) # [])
          \<lparr>wcalls = [], content = [], wscript = [(3, None), (1, Some (Cause ''full''))]\<rparr>
          (''y'' @ [CHR 0x0A]) [] =
        (Some (Wrapped ''error while writing to device: '' (Cause ''full'')), [], dest2, out2) \<and>
      content dest2 =
        content \<lparr>wcalls = [], content = [], wscript = [(3, None), (1, Some (Cause ''full''))]\<rparr> @
        concat [''abc''] @ take (nat 1) ''de'' \<and>
      wcalls dest2 =
        wcalls \<lparr>wcalls = [], content = [], wscript = [(3, None), (1, Some (Cause ''full''))]\<rparr> @
        [''abc''] @ [''de''])"
proof -
  let ?src = "[(''abc'', None), (''de'', Some (Cause ''fault'')), (''zzz'', None)]"
  let ?dst = "\<lparr>wcalls = [], content = [], wscript = []\<rparr>"
  let ?dst2 = "\<lparr>wcalls = [], content = [], wscript = [(3, None), (1, Some (Cause ''full''))]\<rparr>"
  have h: "TrimSpace (ReadString (''y'' @ [CHR 0x0A]) (CHR 0x0A)) = ''y'' \<or>
      TrimSpace (ReadString (''y'' @ [CHR 0x0A]) (CHR 0x0A)) = ''Y''"
    using answer_y_newline by simp
  have r: "wscript ?dst = [] \<and> readError ?src = Some (Cause ''fault'')"
    by simp
  have w: "(\<forall>c' \<in> set (''de'' # [''abc'']). c' \<noteq> [] \<and> length c' \<le> bufSize) \<and>
      wscript ?dst2 = map (\<lambda>c. (int (length c), None)) [''abc''] @ (1, Some (Cause ''full'')) # [] \<and>
      (0::int) \<le> 1 \<and> 1 \<le> int (length ''de'')"
    by (simp add: bufSize_def)
  note p2 = flashDevice_failure [OF h, where source = ?src and dest = ?dst and termOut = "[]"
      and e = "Cause ''fault''", THEN conjunct2, THEN conjunct1, THEN mp, OF r]
  then obtain dest2 out2 where
    run: "flashDevice ?src ?dst (''y'' @ [CHR 0x0A]) [] =
      (Some (Wrapped ''error while writing to device: '' (Cause ''fault'')), unread ?src, dest2, out2)"
    and c: "content dest2 = content ?dst @ delivered ?src"
    by (elim exE conjE)
  note p1 = flashDevice_failure [OF h, where source = ?src and dest = ?dst and termOut = "[]",
      THEN conjunct1, THEN mp, OF run]
  then obtain cause emitted n where
    g: "Wrapped ''error while writing to device: '' (Cause ''fault'') =
        Wrapped ''error while writing to device: '' cause"
      "out2 = [] @ emitted @ [CHR 0x0A]"
      "\<not> sublist ''Flash completed successfully!'' (emitted @ [CHR 0x0A])"
      "content dest2 = content ?dst @ take n (delivered ?src)"
    by (elim exE conjE)
  note p3 = flashDevice_failure [OF h, where dest = ?dst2 and termOut = "[]" and c = "''de''"
      and cs = "[''abc'']" and nw = 1 and e = "Cause ''full''" and ws = "[]" and x = None
      and rest = "[]", THEN conjunct2, THEN conjunct2, THEN mp, OF w]
  show ?thesis
  proof (rule conjI)
    show "\<exists>cause emitted n dest2 out2.
      flashDevice ?src ?dst (''y'' @ [CHR 0x0A]) [] =
        (Some (Wrapped ''error while writing to device: '' (Cause ''fault'')), unread ?src, dest2, out2) \<and>
      content dest2 = content ?dst @ delivered ?src \<and>
      Wrapped ''error while writing to device: '' (Cause ''fault'') =
        Wrapped ''error while writing to device: '' cause \<and>
      out2 = [] @ emitted @ [CHR 0x0A] \<and>
      \<not> sublist ''Flash completed successfully!'' (emitted @ [CHR 0x0A]) \<and>
      content dest2 = content ?dst @ take n (delivered ?src)"
      by (intro exI conjI) (rule run c g)+
    show "\<exists>dest2 out2.
      flashDevice (map (\<lambda>c. (c, None)) [''abc''] @ (''de'', None) # []) ?dst2 (''y'' @ [CHR 0x0A]) [] =
        (Some (Wrapped ''error while writing to device: '' (Cause ''full'')), [], dest2, out2) \<and>
      content dest2 = content ?dst2 @ concat [''abc''] @ take (nat 1) ''de'' \<and>
      wcalls dest2 = wcalls ?dst2 @ [''abc''] @ [''de'']"
      by (rule p3)
  qed
qed

text \<open>
  C7. An answer \<open>y\<close> or \<open>Y\<close> that ends with the input, without a line terminator, is read
  as one line and trims to itself: \<open>flashDevice\<close> behaves as for the same answer followed
  by a line terminator, so the copy is made.
\<close>

theorem flashDevice_answer_without_newline:
  assumes "answer = ''y'' \<or> answer = ''Y''"
  shows "ReadString answer (CHR 0x0A) = answer \<and>
    TrimSpace (ReadString answer (CHR 0x0A)) = answer \<and>
    flashDevice source dest answer termOut = flashDevice source dest (answer @ [CHR 0x0A]) termOut \<and>
    (readError source = None \<and> wscript dest = [] \<longrightarrow>
       (\<exists>dest1 emitted.
          flashDevice source dest answer termOut = (None, unread source, dest1, termOut @ emitted) \<and>
          content dest1 = content dest @ delivered source \<and>
          sublist ''Flash completed successfully!'' emitted))"
proof -
  have bare: "ReadString answer (CHR 0x0A) = answer \<and> TrimSpace (ReadString answer (CHR 0x0A)) = answer"
    using assms answer_y_bare answer_Y_bare by auto
  have nl: "TrimSpace (ReadString (answer @ [CHR 0x0A]) (CHR 0x0A)) = answer"
    using assms answer_y_newline answer_Y_newline by auto
  have a1: "TrimSpace (ReadString answer (CHR 0x0A)) = ''y'' \<or>
      TrimSpace (ReadString answer (CHR 0x0A)) = ''Y''"
    using bare assms by metis
  have a2: "TrimSpace (ReadString (answer @ [CHR 0x0A]) (CHR 0x0A)) = ''y'' \<or>
      TrimSpace (ReadString (answer @ [CHR 0x0A]) (CHR 0x0A)) = ''Y''"
    using nl assms by metis
  have same: "flashDevice source dest answer termOut =
      flashDevice source dest (answer @ [CHR 0x0A]) termOut"
    by (simp only: flashDevice_affirm [OF a1] flashDevice_affirm [OF a2])
  show ?thesis
    using bare same flashDevice_affirm_success [OF a1, of source dest termOut] by blast
qed

theorem flashDevice_answer_without_newline_witness:
  "ReadString ''y'' (CHR 0x0A) = ''y'' \<and>
   TrimSpace (ReadString ''y'' (CHR 0x0A)) = ''y'' \<and>
   flashDevice [(''abc'', None)] \<lparr>wcalls = [], content = [], wscript = []\<rparr> ''y'' [] =
     flashDevice [(''abc'', None)] \<lparr>wcalls = [], content = [], wscript = []\<rparr> (''y'' @ [CHR 0x0A]) [] \<and>
   (\<exists>dest1 emitted.
      flashDevice [(''abc'', None)] \<lparr>wcalls = [], content = [], wscript = []\<rparr> ''y'' [] =
        (None, unread [(''abc'', None)], dest1, [] @ emitted) \<and>
      content dest1 = content \<lparr>wcalls = [], content = [], wscript = []\<rparr> @ delivered [(''abc'', None)] \<and>
      sublist ''Flash completed successfully!'' emitted)"
proof -
  have h: "''y'' = ''y'' \<or> ''y'' = ''Y''"
    by simp
  have g: "readError [(''abc'', None)] = None \<and> wscript \<lparr>wcalls = [], content = [], wscript = []\<rparr> = []"
    by simp
  note t = flashDevice_answer_without_newline [OF h, where source = "[(''abc'', None)]"
      and dest = "\<lparr>wcalls = [], content = [], wscript = []\<rparr>" and termOut = "[]"]
  show ?thesis
    by (intro conjI t [THEN conjunct1] t [THEN conjunct2, THEN conjunct1]
        t [THEN conjunct2, THEN conjunct2, THEN conjunct1]
        t [THEN conjunct2, THEN conjunct2, THEN conjunct2, THEN mp, OF g])
qed

text \<open>
  C8. Two runs of \<open>flashDevice\<close> in sequence, each with a refusing answer, on the same
  source and destination: both return \<open>nil\<close> and the destination after each run is the
  destination before it, with no \<open>Write\<close> call recorded.
\<close>

theorem flashDevice_refusal_twice:
  assumes "TrimSpace (ReadString input1 (CHR 0x0A)) \<noteq> ''y'' \<and>
      TrimSpace (ReadString input1 (CHR 0x0A)) \<noteq> ''Y''"
    and "TrimSpace (ReadString input2 (CHR 0x0A)) \<noteq> ''y'' \<and>
      TrimSpace (ReadString input2 (CHR 0x0A)) \<noteq> ''Y''"
  shows "(case flashDevice source dest input1 termOut of
      (r1, source1, dest1, out1) \<Rightarrow>
        (case flashDevice source1 dest1 input2 out1 of
           (r2, source2, dest2, out2) \<Rightarrow>
             r1 = None \<and> r2 = None \<and> dest1 = dest \<and> dest2 = dest \<and>
             wcalls dest1 = wcalls dest \<and> wcalls dest2 = wcalls dest \<and>
             content dest2 = content dest))"
  using assms by (simp add: flashDevice_refuse)

theorem flashDevice_refusal_twice_witness:
  "(case flashDevice [(''abc'', None)] \<lparr>wcalls = [], content = [], wscript = []\<rparr>
        (''n'' @ [CHR 0x0A]) [] of
      (r1, source1, dest1, out1) \<Rightarrow>
        (case flashDevice source1 dest1 [] out1 of
           (r2, source2, dest2, out2) \<Rightarrow>
             r1 = None \<and> r2 = None \<and> dest1 = \<lparr>wcalls = [], content = [], wscript = []\<rparr> \<and>
             dest2 = \<lparr>wcalls = [], content = [], wscript = []\<rparr> \<and>
             wcalls dest1 = wcalls \<lparr>wcalls = [], content = [], wscript = []\<rparr> \<and>
             wcalls dest2 = wcalls \<lparr>wcalls = [], content = [], wscript = []\<rparr> \<and>
             content dest2 = content \<lparr>wcalls = [], content = [], wscript = []\<rparr>))"
proof -
  have h1: "TrimSpace (ReadString (''n'' @ [CHR 0x0A]) (CHR 0x0A)) \<noteq> ''y'' \<and>
      TrimSpace (ReadString (''n'' @ [CHR 0x0A]) (CHR 0x0A)) \<noteq> ''Y''"
    using answer_n_newline by simp
  have h2: "TrimSpace (ReadString [] (CHR 0x0A)) \<noteq> ''y'' \<and>
      TrimSpace (ReadString [] (CHR 0x0A)) \<noteq> ''Y''"
    using answer_eof by simp
  show ?thesis
    by (rule flashDevice_refusal_twice [OF h1 h2])
qed

text \<open>
  C9. On refusal the source stream is returned as it was given, no read having been made,
  and neither the outcome nor the text sent to the message stream depends on the source.
\<close>

theorem flashDevice_refusal_source_unread:
  assumes "TrimSpace (ReadString userInput (CHR 0x0A)) \<noteq> ''y'' \<and>
      TrimSpace (ReadString userInput (CHR 0x0A)) \<noteq> ''Y''"
  shows "fst (snd (flashDevice source dest userInput termOut)) = source \<and>
    fst (flashDevice source dest userInput termOut) =
      fst (flashDevice source2 dest userInput termOut) \<and>
    snd (snd (flashDevice source dest userInput termOut)) =
      snd (snd (flashDevice source2 dest userInput termOut))"
  using assms by (simp add: flashDevice_refuse)

theorem flashDevice_refusal_source_unread_witness:
  "fst (snd (flashDevice [(''abc'', None), (''de'', Some (Cause ''fault''))]
      \<lparr>wcalls = [], content = [], wscript = []\<rparr> (''no'' @ [CHR 0x0A]) [])) =
     [(''abc'', None), (''de'', Some (Cause ''fault''))] \<and>
   fst (flashDevice [(''abc'', None), (''de'', Some (Cause ''fault''))]
      \<lparr>wcalls = [], content = [], wscript = []\<rparr> (''no'' @ [CHR 0x0A]) []) =
     fst (flashDevice [] \<lparr>wcalls = [], content = [], wscript = []\<rparr> (''no'' @ [CHR 0x0A]) []) \<and>
   snd (snd (flashDevice [(''abc'', None), (''de'', Some (Cause ''fault''))]
      \<lparr>wcalls = [], content = [], wscript = []\<rparr> (''no'' @ [CHR 0x0A]) [])) =
     snd (snd (flashDevice [] \<lparr>wcalls = [], content = [], wscript = []\<rparr> (''no'' @ [CHR 0x0A]) []))"
proof -
  have n: "TrimSpace (ReadString (''no'' @ [CHR 0x0A]) (CHR 0x0A)) = ''no''"
    by code_simp
  have h: "TrimSpace (ReadString (''no'' @ [CHR 0x0A]) (CHR 0x0A)) \<noteq> ''y'' \<and>
      TrimSpace (ReadString (''no'' @ [CHR 0x0A]) (CHR 0x0A)) \<noteq> ''Y''"
    using n by simp
  show ?thesis
    by (rule flashDevice_refusal_source_unread [OF h])
qed

end
